theory Spec2Isabelle
  imports Complex_Main "HOL-Library.Word" "HOL-Library.Sublist" "HOL-Library.AList"
begin

unbundle bit_operations_syntax

section \<open>Bytes and Python helpers\<close>

text \<open>
  A Python \<open>bytes\<close> object is a sequence of integers in \<open>0..255\<close>: a list of 8-bit
  words. Reading one element gives a Python \<open>int\<close> (\<open>uint\<close>). All other integers of
  the source are unbounded Python ints, modelled as \<open>int\<close>; list positions and
  lengths, which never go negative in the source, are \<open>nat\<close>.
\<close>

type_synonym byte = "8 word"
type_synonym bytes = "byte list"

text \<open>\<open>range(a, b)\<close> and \<open>range(a, b, 2)\<close> for \<open>a\<close> and \<open>b\<close> of either sign.\<close>

definition py_range :: "int \<Rightarrow> int \<Rightarrow> int list" where
  "py_range a b = [a..b - 1]"

definition py_range2 :: "int \<Rightarrow> int \<Rightarrow> int list" where
  "py_range2 a b = filter (\<lambda>x. even (x - a)) [a..b - 1]"

text \<open>\<open>int.from_bytes(bs, "little")\<close> and \<open>int.from_bytes(bs, "big")\<close>.\<close>

definition from_bytes_little :: "bytes \<Rightarrow> int" where
  "from_bytes_little bs = foldr (\<lambda>b acc. uint b + 256 * acc) bs 0"

definition from_bytes_big :: "bytes \<Rightarrow> int" where
  "from_bytes_big bs = fold (\<lambda>b acc. 256 * acc + uint b) bs 0"

text \<open>
  Slices with non-negative bounds: \<open>data[i:j]\<close>, and the two slices with a negative
  bound that the source uses, \<open>frame[:-2]\<close> and \<open>frame[-2:]\<close> (on a frame shorter
  than two bytes the first is empty and the second is the whole frame, which is what the
  truncating subtraction gives).
\<close>

definition slice :: "'a list \<Rightarrow> nat \<Rightarrow> nat \<Rightarrow> 'a list" where
  "slice xs i j = take (j - i) (drop i xs)"

definition but_last2 :: "'a list \<Rightarrow> 'a list" where
  "but_last2 xs = take (length xs - 2) xs"

definition last2 :: "'a list \<Rightarrow> 'a list" where
  "last2 xs = drop (length xs - 2) xs"

section \<open>parser.py: the CRC\<close>

definition crc_bit :: "int \<Rightarrow> int" where
  "crc_bit crc = (if crc AND 1 \<noteq> 0 then drop_bit 1 crc XOR 0xA001 else drop_bit 1 crc)"

definition crc_byte :: "byte \<Rightarrow> int \<Rightarrow> int" where
  "crc_byte b crc = (crc_bit ^^ 8) (crc XOR uint b)"

definition compute_crc :: "bytes \<Rightarrow> int" where
  "compute_crc data = fold crc_byte data 0xFFFF AND 0xFFFF"

text \<open>
  The two-byte little-endian encoding of a CRC, \<open>crc.to_bytes(2, "little")\<close>, as it
  stands on the wire.
\<close>

definition crc_le :: "bytes \<Rightarrow> bytes" where
  "crc_le p = [word_of_int (compute_crc p AND 0xFF), word_of_int (drop_bit 8 (compute_crc p) AND 0xFF)]"

section \<open>parser.py: candidate lengths\<close>

text \<open>
  The \<open>lengths\<close> set is built as a list; the final \<open>sorted(...)\<close> of a set is the
  sorted list without duplicates.
\<close>

definition candidate_frame_lengths :: "int option \<Rightarrow> int \<Rightarrow> int list" where
  "candidate_frame_lengths function_code max_len =
     (case function_code of
        None \<Rightarrow> py_range 4 (max_len + 1)
      | Some f \<Rightarrow>
          let fc = f AND 0x7F;
              lengths =
                (if fc = 1 \<or> fc = 2 then
                   8 # filter (\<lambda>c. c \<le> max_len)
                         (map (\<lambda>bc. 5 + bc) (py_range 1 (min 252 (max_len - 4))))
                 else if fc = 3 \<or> fc = 4 then
                   8 # filter (\<lambda>c. c \<le> max_len)
                         (map (\<lambda>bc. 5 + bc) (py_range2 2 (min (2 * 125) (max_len - 5) + 1)))
                 else if fc = 5 \<or> fc = 6 then [8]
                 else if fc = 15 then
                   8 # filter (\<lambda>c. c \<le> max_len)
                         (map (\<lambda>bc. 9 + bc) (py_range 1 (min 246 (max_len - 9) + 1)))
                 else if fc = 16 then
                   8 # filter (\<lambda>c. c \<le> max_len)
                         (map (\<lambda>bc. 9 + bc) (py_range2 2 (min (2 * 123) (max_len - 9) + 1)))
                 else if f AND 0x80 \<noteq> 0 then [5]
                 else []);
              lengths = (if lengths = [] then py_range 4 (max_len + 1) else lengths)
          in sort (remdups (filter (\<lambda>l. 4 \<le> l \<and> l \<le> max_len) lengths)))"

section \<open>udp_web_server.py: candidate lengths\<close>

text \<open>
  The dashboard server carries its own copy of the splitter. Its candidate function
  differs from the one of \<open>parser.py\<close> in one place: it dispatches on the function byte
  as received, not on its low seven bits.
\<close>

definition ws_candidate_frame_lengths :: "int option \<Rightarrow> int \<Rightarrow> int list" where
  "ws_candidate_frame_lengths func max_len =
     (case func of
        None \<Rightarrow> py_range 4 (max_len + 1)
      | Some f \<Rightarrow>
          let lengths =
                (if f = 1 \<or> f = 2 then
                   8 # filter (\<lambda>c. c \<le> max_len)
                         (map (\<lambda>bc. 5 + bc) (py_range 1 (min 252 (max_len - 4))))
                 else if f = 3 \<or> f = 4 then
                   8 # filter (\<lambda>c. c \<le> max_len)
                         (map (\<lambda>bc. 5 + bc) (py_range2 2 (min (2 * 125) (max_len - 5) + 1)))
                 else if f = 5 \<or> f = 6 then [8]
                 else if f = 15 then
                   8 # filter (\<lambda>c. c \<le> max_len)
                         (map (\<lambda>bc. 9 + bc) (py_range 1 (min 246 (max_len - 9) + 1)))
                 else if f = 16 then
                   8 # filter (\<lambda>c. c \<le> max_len)
                         (map (\<lambda>bc. 9 + bc) (py_range2 2 (min (2 * 123) (max_len - 9) + 1)))
                 else if f AND 0x80 \<noteq> 0 then [5]
                 else []);
              lengths = (if lengths = [] then py_range 4 (max_len + 1) else lengths)
          in sort (remdups (filter (\<lambda>l. 4 \<le> l \<and> l \<le> max_len) lengths)))"

section \<open>parser.py: the frame splitter\<close>

text \<open>
  \<open>split_modbus_frames\<close> has the same text in \<open>parser.py\<close> and in \<open>udp_web_server.py\<close>;
  each calls the \<open>_candidate_frame_lengths\<close> of its own module, which is the parameter
  \<open>cand\<close> of the loop below. \<open>compute_crc\<close> is the same function in both modules.

  The inner \<open>for length in candidates\<close> loop: the first candidate whose slice has a
  matching CRC, if any. Candidates are positive, so the slice \<open>data[idx : idx + length]\<close>
  is a \<open>take\<close> after a \<open>drop\<close>.
\<close>

fun try_lengths :: "bytes \<Rightarrow> nat \<Rightarrow> int list \<Rightarrow> nat option" where
  "try_lengths data idx [] = None"
| "try_lengths data idx (l # ls) =
     (if int idx + l > int (length data) then try_lengths data idx ls
      else let frame = slice data idx (idx + nat l) in
        if length frame < 4 then try_lengths data idx ls
        else if compute_crc (but_last2 frame) = from_bytes_little (last2 frame)
          then Some (nat l)
          else try_lengths data idx ls)"

function split_loop ::
  "(int option \<Rightarrow> int \<Rightarrow> int list) \<Rightarrow> bytes \<Rightarrow> nat \<Rightarrow> bytes list \<Rightarrow> bytes list \<times> bytes" where
  "split_loop cand data idx frames =
     (if idx + 4 \<le> length data then
        let func = (if idx + 1 < length data then Some (uint (data ! (idx + 1))) else None);
            max_len = min 256 (int (length data) - int idx);
            candidates = cand func max_len
        in case try_lengths data idx candidates of
             Some l \<Rightarrow> split_loop cand data (idx + l) (frames @ [slice data idx (idx + l)])
           | None \<Rightarrow> split_loop cand data (idx + 1) frames
      else (frames, drop idx data))"
  by pat_completeness auto
termination
proof (relation "measure (\<lambda>(cand, data, idx, frames). length data - idx)")
  show "wf (measure (\<lambda>(cand, data, idx, frames). length data - idx))" by simp
next
  fix cand :: "int option \<Rightarrow> int \<Rightarrow> int list"
  fix data :: bytes and idx :: nat and frames :: "bytes list" and func max_len candidates l
  assume more: "idx + 4 \<le> length data" and found: "try_lengths data idx candidates = Some l"
  have "try_lengths data idx ls = Some l \<Longrightarrow> 4 \<le> l \<and> idx + l \<le> length data" for ls
    by (induction ls) (auto simp: slice_def Let_def split: if_splits)
  from this [OF found]
  show "((cand, data, idx + l, frames @ [slice data idx (idx + l)]), (cand, data, idx, frames))
        \<in> measure (\<lambda>(cand, data, idx, frames). length data - idx)"
    by auto
next
  fix cand :: "int option \<Rightarrow> int \<Rightarrow> int list"
  fix data :: bytes and idx :: nat and frames :: "bytes list"
  assume "idx + 4 \<le> length data"
  then show "((cand, data, idx + 1, frames), (cand, data, idx, frames))
        \<in> measure (\<lambda>(cand, data, idx, frames). length data - idx)"
    by simp
qed

definition split_modbus_frames :: "bytes \<Rightarrow> bytes list \<times> bytes" where
  "split_modbus_frames data = split_loop candidate_frame_lengths data 0 []"

definition ws_split_modbus_frames :: "bytes \<Rightarrow> bytes list \<times> bytes" where
  "ws_split_modbus_frames data = split_loop ws_candidate_frame_lengths data 0 []"

section \<open>udp_web_server.py: the payload decoder\<close>

text \<open>
  \<open>decode_modbus_payload\<close> returns a dict. Its keys \<open>fields\<close> (here \<open>payload_fields\<close>,
  the name its caller gives it), \<open>frame_type\<close> and \<open>is_exception\<close> are modelled; \<open>notes\<close>, \<open>summary\<close> and \<open>function_label\<close> are text
  for the reader of the dashboard and are left out. A field made by \<open>make_field\<close> has a
  label, a value and a size in bytes; one made by \<open>make_raw_field\<close> has a label and the
  bytes. A label is a fixed text, or a text followed by a number
  (\<open>f"Registro {idx // 2 + 1}"\<close>).
\<close>

datatype label = Label string | Numbered string int

datatype field = Field label int nat | RawField label bytes

record decoded =
  payload_fields :: "field list"
  frame_type :: string
  is_exception :: bool

text \<open>
  The loop over two-byte chunks of the FC03/04 response and of the FC16 request:
  a register field per complete chunk, a raw field for a trailing single byte. The
  number in the label is \<open>idx // 2 + 1\<close> for responses and \<open>idx // 2\<close> for FC16.
\<close>

fun register_fields :: "int \<Rightarrow> bytes \<Rightarrow> field list" where
  "register_fields k (a # b # rest) =
     Field (Numbered ''Registro'' k) (from_bytes_big [a, b]) 2 # register_fields (k + 1) rest"
| "register_fields k [a] = [RawField (Numbered ''Dato incompleto'' k) [a]]"
| "register_fields k [] = []"

definition raw_if :: "string \<Rightarrow> bytes \<Rightarrow> field list" where
  "raw_if l data = (if data = [] then [] else [RawField (Label l) data])"

definition start_quantity_fields :: "bytes \<Rightarrow> field list" where
  "start_quantity_fields payload =
     [Field (Label ''Start Address'') (from_bytes_big (slice payload 0 2)) 2,
      Field (Label ''Quantity'') (from_bytes_big (slice payload 2 4)) 2]"

definition decode_modbus_payload :: "int option \<Rightarrow> bytes \<Rightarrow> decoded" where
  "decode_modbus_payload function_code payload =
     (case function_code of
        None \<Rightarrow>
          \<lparr>payload_fields = raw_if ''Payload'' payload, frame_type = ''unknown'', is_exception = False\<rparr>
      | Some f \<Rightarrow>
          let fc = f AND 0x7F; len = length payload in
          if f AND 0x80 = 0x80 then
            \<lparr>payload_fields =
               (if payload = [] then []
                else Field (Label ''Exception Code'') (uint (payload ! 0)) 1
                       # (if length payload > 1 then [RawField (Label ''Dati extra'') (drop 1 payload)]
                          else [])),
             frame_type = ''exception'', is_exception = True\<rparr>
          else if fc = 1 \<or> fc = 2 \<or> fc = 3 \<or> fc = 4 then
            (if len \<noteq> 4 \<and> len \<ge> 1 then
               let byte_count = uint (payload ! 0);
                   data_bytes = drop 1 payload;
                   byte_count = (if byte_count > int (length data_bytes)
                                 then int (length data_bytes) else byte_count);
                   data_portion = take (nat byte_count) data_bytes;
                   extra = drop (nat byte_count) data_bytes
               in \<lparr>payload_fields =
                     Field (Label ''Byte Count'') (uint (payload ! 0)) 1
                       # (if fc = 3 \<or> fc = 4 then register_fields 1 data_portion
                          else raw_if ''Coils/Data'' data_portion @ raw_if ''Dati extra'' extra),
                   frame_type = ''response'', is_exception = False\<rparr>
             else if len \<ge> 4 then
               \<lparr>payload_fields = start_quantity_fields payload @ raw_if ''Dati aggiuntivi'' (drop 4 payload),
                frame_type = ''request'', is_exception = False\<rparr>
             else
               \<lparr>payload_fields = raw_if ''Payload'' payload, frame_type = ''unknown'',
                is_exception = False\<rparr>)
          else if fc = 5 \<or> fc = 6 then
            (if len \<ge> 4 then
               \<lparr>payload_fields =
                  [Field (Label ''Address'') (from_bytes_big (slice payload 0 2)) 2,
                   Field (Label ''Value'') (from_bytes_big (slice payload 2 4)) 2],
                frame_type = ''request/response'', is_exception = False\<rparr>
             else
               \<lparr>payload_fields = raw_if ''Payload'' payload, frame_type = ''unknown'',
                is_exception = False\<rparr>)
          else if fc = 15 \<or> fc = 16 then
            (if len = 4 then
               \<lparr>payload_fields = start_quantity_fields payload, frame_type = ''response'',
                is_exception = False\<rparr>
             else if len \<ge> 5 then
               let byte_count = uint (payload ! 4);
                   vals = slice payload 5 (5 + nat byte_count);
                   extra = drop (5 + nat byte_count) payload
               in \<lparr>payload_fields =
                     start_quantity_fields payload
                       @ [Field (Label ''Byte Count'') byte_count 1]
                       @ (if fc = 15 then raw_if ''Values'' vals else register_fields 0 vals)
                       @ raw_if ''Dati extra'' extra,
                   frame_type = ''request'', is_exception = False\<rparr>
             else
               \<lparr>payload_fields = raw_if ''Payload'' payload, frame_type = ''unknown'',
                is_exception = False\<rparr>)
          else
            \<lparr>payload_fields = raw_if ''Payload'' payload, frame_type = ''unknown'',
             is_exception = False\<rparr>)"

section \<open>parser.py: decoding the frames the hub consumes\<close>

text \<open>\<open>frame[2:-2]\<close>, empty on a frame shorter than four bytes.\<close>

definition payload_of :: "bytes \<Rightarrow> bytes" where
  "payload_of frame = slice frame 2 (length frame - 2)"

text \<open>
  The loop \<open>for idx in range(0, len(data_bytes), 2)\<close> of the FC03 and FC16 parsers: one
  big-endian value per complete two-byte chunk; a trailing single byte is dropped.
\<close>

fun chunk_values :: "bytes \<Rightarrow> int list" where
  "chunk_values (a # b # rest) = from_bytes_big [a, b] # chunk_values rest"
| "chunk_values _ = []"

definition parse_fc03_request :: "bytes \<Rightarrow> (int \<times> int \<times> int) option" where
  "parse_fc03_request frame =
     (if length frame < 8 then None
      else let unit = uint (frame ! 0); func = uint (frame ! 1) in
        if func AND 0x7F \<noteq> 3 \<or> func AND 0x80 \<noteq> 0 then None
        else let payload = payload_of frame in
          if length payload \<noteq> 4 then None
          else Some (unit, from_bytes_big (slice payload 0 2), from_bytes_big (slice payload 2 4)))"

definition parse_fc03_response :: "bytes \<Rightarrow> (int \<times> int list) option" where
  "parse_fc03_response frame =
     (if length frame < 5 then None
      else let unit = uint (frame ! 0); func = uint (frame ! 1) in
        if func AND 0x7F \<noteq> 3 \<or> func AND 0x80 \<noteq> 0 then None
        else let payload = payload_of frame in
          if payload = [] then None
          else let byte_count = uint (payload ! 0);
                   data_bytes = slice payload 1 (1 + nat byte_count);
                   vals = chunk_values data_bytes
               in if vals = [] then None else Some (unit, vals))"

definition parse_fc06 :: "bytes \<Rightarrow> (int \<times> int \<times> int) option" where
  "parse_fc06 frame =
     (if length frame < 8 then None
      else let unit = uint (frame ! 0); func = uint (frame ! 1) in
        if func AND 0x7F \<noteq> 6 then None
        else let payload = payload_of frame in
          if length payload < 4 then None
          else Some (unit, from_bytes_big (slice payload 0 2), from_bytes_big (slice payload 2 4)))"

definition parse_fc16_request :: "bytes \<Rightarrow> (int \<times> int \<times> int list) option" where
  "parse_fc16_request frame =
     (if length frame < 9 then None
      else let unit = uint (frame ! 0); func = uint (frame ! 1) in
        if func AND 0x7F \<noteq> 16 \<or> func AND 0x80 \<noteq> 0 then None
        else let payload = payload_of frame in
          if length payload < 5 then None
          else let start_addr = from_bytes_big (slice payload 0 2);
                   quantity = from_bytes_big (slice payload 2 4);
                   byte_count = uint (payload ! 4);
                   data_bytes = slice payload 5 (5 + nat byte_count);
                   vals = chunk_values data_bytes
               in if vals = [] then None
                  else Some (unit, start_addr,
                         if 0 < quantity \<and> quantity < int (length vals)
                         then take (nat quantity) vals else vals))"

section \<open>hub.py: the capture hub\<close>

text \<open>
  The hub's mutable fields, passed explicitly. \<open>_pending_reads\<close> is a
  \<open>defaultdict(deque)\<close>: a total function with the empty queue as default. \<open>_values\<close>
  is a dict, whose insertion order \<open>get_register\<close> observes: an association list,
  updated in place or extended at the end. \<open>dispatched\<close> is the trace of
  \<open>SIGNAL_REGISTER_UPDATE\<close> messages passed to \<open>async_dispatcher_send\<close>, oldest first.

  The event loop's monotonic clock is an input of the program: \<open>clk n\<close> is the value the
  \<open>n\<close>-th call of \<open>loop.time()\<close> returns, and \<open>clock_reads\<close> counts the calls made so
  far. Times are real numbers; the rounding of Python floats is not modelled.
\<close>

record RegisterValue =
  rv_unit_id :: int
  rv_register :: int
  rv_value :: int
  rv_updated_at :: real

type_synonym pending = "int \<times> int \<times> real"
type_synonym event = "int \<times> int \<times> int"

record hub =
  buffer :: bytes
  pending_reads :: "int \<Rightarrow> pending list"
  values_store :: "((int \<times> int) \<times> RegisterValue) list"
  dispatched :: "event list"
  clock_reads :: nat

datatype error = IndexError

definition init_hub :: hub where
  "init_hub = \<lparr>buffer = [], pending_reads = (\<lambda>_. []), values_store = [],
               dispatched = [], clock_reads = 0\<rparr>"

definition arrival :: "pending \<Rightarrow> real" where
  "arrival p = snd (snd p)"

definition purge_queue :: "real \<Rightarrow> pending list \<Rightarrow> pending list" where
  "purge_queue now queue = dropWhile (\<lambda>p. now - arrival p > 5.0) queue"

definition purge_old_requests :: "hub \<Rightarrow> int \<Rightarrow> real \<Rightarrow> hub" where
  "purge_old_requests h unit now =
     h\<lparr>pending_reads := (pending_reads h)(unit := purge_queue now (pending_reads h unit))\<rparr>"

definition pop_matching_request :: "hub \<Rightarrow> int \<Rightarrow> int \<Rightarrow> real \<Rightarrow> int option \<times> hub" where
  "pop_matching_request h unit values_len now =
     (let h = purge_old_requests h unit now in
      case pending_reads h unit of
        [] \<Rightarrow> (None, h)
      | (start_addr, quantity, t) # rest \<Rightarrow>
          let h = h\<lparr>pending_reads := (pending_reads h)(unit := rest)\<rparr> in
          if quantity \<noteq> 0 \<and> quantity < values_len then (Some start_addr, h)
          else (Some start_addr, h))"

definition store_register :: "(nat \<Rightarrow> real) \<Rightarrow> hub \<Rightarrow> int \<Rightarrow> int \<Rightarrow> int \<Rightarrow> hub" where
  "store_register clk h unit_id register val =
     (let key = (unit_id, register);
          updated_at = clk (clock_reads h)
      in h\<lparr>clock_reads := Suc (clock_reads h),
           values_store := AList.update key
              \<lparr>rv_unit_id = unit_id, rv_register = register, rv_value = val,
               rv_updated_at = updated_at\<rparr> (values_store h),
           dispatched := dispatched h @ [(unit_id, register, val)]\<rparr>)"

definition get_register :: "hub \<Rightarrow> int option \<Rightarrow> int \<Rightarrow> int option" where
  "get_register h unit_id register =
     (case unit_id of
        Some u \<Rightarrow> map_option rv_value (map_of (values_store h) (u, register))
      | None \<Rightarrow> map_option (\<lambda>(key, sample). rv_value sample)
                  (List.find (\<lambda>((uid, reg), sample). reg = register) (rev (values_store h))))"

text \<open>\<open>for offset, value in enumerate(values): self._store_register(unit, start_addr + offset, value)\<close>\<close>

definition store_all :: "(nat \<Rightarrow> real) \<Rightarrow> hub \<Rightarrow> int \<Rightarrow> int \<Rightarrow> int list \<Rightarrow> hub" where
  "store_all clk h unit start_addr vals =
     fold (\<lambda>(offset, val) h. store_register clk h unit (start_addr + int offset) val)
          (enumerate 0 vals) h"

definition handle_frame :: "(nat \<Rightarrow> real) \<Rightarrow> hub \<Rightarrow> bytes \<Rightarrow> error + hub" where
  "handle_frame clk h frame =
     (if length frame < 2 then Inl IndexError
      else
        let unit = uint (frame ! 0);
            func = uint (frame ! 1);
            fc = func AND 0x7F;
            now_monotonic = clk (clock_reads h);
            h = h\<lparr>clock_reads := Suc (clock_reads h)\<rparr>
        in Inr
          (if fc = 3 then
             (case parse_fc03_request frame of
                Some (u, start_addr, quantity) \<Rightarrow>
                  purge_old_requests
                    (h\<lparr>pending_reads := (pending_reads h)
                         (unit := pending_reads h unit @ [(start_addr, quantity, now_monotonic)])\<rparr>)
                    unit now_monotonic
              | None \<Rightarrow>
                 (case parse_fc03_response frame of
                    Some (u, vals) \<Rightarrow>
                      (case pop_matching_request h unit (int (length vals)) now_monotonic of
                         (None, h) \<Rightarrow> store_all clk h unit 0 vals
                       | (Some start_addr, h) \<Rightarrow> store_all clk h unit start_addr vals)
                  | None \<Rightarrow> h))
           else if fc = 6 then
             (case parse_fc06 frame of
                Some (u, register, val) \<Rightarrow> store_register clk h unit register val
              | None \<Rightarrow> h)
           else if fc = 16 then
             (case parse_fc16_request frame of
                Some (u, start_addr, vals) \<Rightarrow> store_all clk h unit start_addr vals
              | None \<Rightarrow> h)
           else h))"

text \<open>\<open>for frame in frames: self._handle_frame(frame)\<close>; an exception ends the loop.\<close>

fun handle_frames :: "(nat \<Rightarrow> real) \<Rightarrow> hub \<Rightarrow> bytes list \<Rightarrow> error + hub" where
  "handle_frames clk h [] = Inr h"
| "handle_frames clk h (frame # frames) =
     (case handle_frame clk h frame of
        Inl e \<Rightarrow> Inl e
      | Inr h' \<Rightarrow> handle_frames clk h' frames)"

definition process_bytes :: "(nat \<Rightarrow> real) \<Rightarrow> hub \<Rightarrow> bytes \<Rightarrow> error + hub" where
  "process_bytes clk h data =
     (if data = [] then Inr h
      else
        let payload = buffer h @ data;
            (frames, leftover) = split_modbus_frames payload;
            h = h\<lparr>buffer := leftover\<rparr>
        in handle_frames clk h frames)"

text \<open>The address of the sender only labels a debug message.\<close>

definition handle_datagram :: "(nat \<Rightarrow> real) \<Rightarrow> hub \<Rightarrow> bytes \<Rightarrow> string \<times> int \<Rightarrow> error + hub" where
  "handle_datagram clk h data addr = process_bytes clk h data"

text \<open>
  The read loop of \<open>_tcp_run\<close> on one connection: each non-empty read goes to
  \<open>_process_bytes\<close>; an empty read ends the loop, and closing the connection clears
  the buffer.
\<close>

fun tcp_reads :: "(nat \<Rightarrow> real) \<Rightarrow> hub \<Rightarrow> bytes list \<Rightarrow> error + hub" where
  "tcp_reads clk h [] = Inr h"
| "tcp_reads clk h (data # reads) =
     (if data = [] then Inr (h\<lparr>buffer := []\<rparr>)
      else case process_bytes clk h data of
             Inl e \<Rightarrow> Inl e
           | Inr h' \<Rightarrow> tcp_reads clk h' reads)"

text \<open>
  \<open>_UDPProtocol.datagram_received\<close> hands each datagram, in order of arrival, to
  \<open>handle_datagram\<close>.
\<close>

fun datagrams_received ::
  "(nat \<Rightarrow> real) \<Rightarrow> hub \<Rightarrow> (bytes \<times> string \<times> int) list \<Rightarrow> error + hub" where
  "datagrams_received clk h [] = Inr h"
| "datagrams_received clk h ((data, addr) # rest) =
     (case handle_datagram clk h data addr of
        Inl e \<Rightarrow> Inl e
      | Inr h' \<Rightarrow> datagrams_received clk h' rest)"

section \<open>Vocabulary of the properties\<close>

text \<open>The values a CRC register can hold: sixteen bits.\<close>

definition crc_range :: "int \<Rightarrow> bool" where
  "crc_range c \<longleftrightarrow> 0 \<le> c \<and> c < 2 ^ 16"

text \<open>
  A buffer laid out as skipped bytes, a frame, skipped bytes, a frame, and so on, ending
  with one last run of skipped bytes: \<open>interleave [g0, g1, g2] [f1, f2] = g0 @ f1 @ g1 @ f2 @ g2\<close>.
\<close>

fun interleave :: "'a list list \<Rightarrow> 'a list list \<Rightarrow> 'a list" where
  "interleave (g # gs) (f # fs) = g @ f @ interleave gs fs"
| "interleave (g # gs) [] = g"
| "interleave [] fs = []"

text \<open>What an observer of the dispatcher sees of a run: the updates sent, or the error.\<close>

definition events_of :: "error + hub \<Rightarrow> error + event list" where
  "events_of r = (case r of Inl e \<Rightarrow> Inl e | Inr h \<Rightarrow> Inr (dispatched h))"

text \<open>The register store without the time stamps of its samples.\<close>

definition untimed ::
  "((int \<times> int) \<times> RegisterValue) list \<Rightarrow> ((int \<times> int) \<times> int \<times> int \<times> int) list" where
  "untimed store = map (\<lambda>(key, s). (key, rv_unit_id s, rv_register s, rv_value s)) store"

text \<open>A frame as the splitter accepts it: four bytes or more, ending in its CRC.\<close>

definition frame_ok :: "bytes \<Rightarrow> bool" where
  "frame_ok frame \<longleftrightarrow>
     4 \<le> length frame \<and> compute_crc (but_last2 frame) = from_bytes_little (last2 frame)"

text \<open>
  The order of the pending requests: every queue is in order of arrival, and no entry
  is later than the next reading of the clock.
\<close>

definition pending_ordered :: "(nat \<Rightarrow> real) \<Rightarrow> hub \<Rightarrow> bool" where
  "pending_ordered clk h \<longleftrightarrow>
     (\<forall>unit. sorted (map arrival (pending_reads h unit)) \<and>
        list_all (\<lambda>p. arrival p \<le> clk (clock_reads h)) (pending_reads h unit))"

section \<open>The CRC\<close>

lemma crc_bit_range: "crc_range c \<Longrightarrow> crc_range (crc_bit c)"
proof -
  assume c: "crc_range c"
  then have b: "0 \<le> c" "c < 65536" by (simp_all add: crc_range_def)
  have "0 \<le> c div 2" using b by linarith
  moreover have "c div 2 < 65536" using b by linarith
  ultimately have d: "0 \<le> drop_bit 1 c" "drop_bit 1 c < 2 ^ 16"
    by (simp_all add: drop_bit_eq_div)
  have "drop_bit 1 c XOR 0xA001 < 2 ^ 16"
    using d by (intro XOR_upper) simp_all
  moreover have "0 \<le> drop_bit 1 c XOR 0xA001" using d by simp
  ultimately show ?thesis using d by (simp add: crc_bit_def crc_range_def)
qed

lemma crc_bit_funpow_range: "crc_range c \<Longrightarrow> crc_range ((crc_bit ^^ k) c)"
  by (induction k) (simp_all add: crc_bit_range)

lemma uint_byte_bound: "uint (b :: byte) < 2 ^ 16"
proof -
  have "uint b < 2 ^ 8" using uint_bounded [of b] by simp
  then show ?thesis by simp
qed

lemma crc_byte_range: "crc_range c \<Longrightarrow> crc_range (crc_byte b c)"
proof -
  assume c: "crc_range c"
  have "c XOR uint b < 2 ^ 16"
    using c uint_byte_bound [of b] by (intro XOR_upper) (simp_all add: crc_range_def)
  moreover have "0 \<le> c XOR uint b" using c by (simp add: crc_range_def)
  ultimately have "crc_range (c XOR uint b)" by (simp add: crc_range_def)
  then show ?thesis by (simp add: crc_byte_def crc_bit_funpow_range)
qed

lemma fold_crc_byte_range: "crc_range c \<Longrightarrow> crc_range (fold crc_byte p c)"
  by (induction p arbitrary: c) (simp_all add: crc_byte_range)

text \<open>The final mask of \<open>compute_crc\<close> never changes the register.\<close>

lemma compute_crc_fold: "compute_crc p = fold crc_byte p 0xFFFF"
proof -
  have "crc_range (fold crc_byte p 0xFFFF)"
    by (rule fold_crc_byte_range) (simp add: crc_range_def)
  then have "take_bit 16 (fold crc_byte p 0xFFFF) = fold crc_byte p 0xFFFF"
    by (simp add: crc_range_def take_bit_int_eq_self)
  moreover have "fold crc_byte p 0xFFFF AND 0xFFFF = take_bit 16 (fold crc_byte p 0xFFFF)"
    by (simp add: take_bit_eq_mask mask_eq_exp_minus_1)
  ultimately show ?thesis by (simp add: compute_crc_def)
qed

text \<open>On a register whose low \<open>k\<close> bits are clear, \<open>k\<close> rounds only shift.\<close>

lemma crc_bit_shift:
  "take_bit k c = 0 \<Longrightarrow> (crc_bit ^^ k) c = drop_bit k c"
proof (induction k arbitrary: c)
  case 0
  then show ?case by simp
next
  case (Suc k)
  from Suc.prems have ev: "even c"
    using even_take_bit_eq [of "Suc k" c] by simp
  then have low: "c AND 1 = 0" by (simp add: and_one_eq)
  have "take_bit k (drop_bit 1 c) = drop_bit 1 (take_bit (Suc k) c)"
    by (simp add: take_bit_drop_bit)
  then have tk: "take_bit k (drop_bit 1 c) = 0" using Suc.prems by simp
  have "(crc_bit ^^ Suc k) c = (crc_bit ^^ k) (crc_bit c)"
    by (simp add: funpow_swap1)
  also have "crc_bit c = drop_bit 1 c" using low by (simp add: crc_bit_def)
  also have "(crc_bit ^^ k) (drop_bit 1 c) = drop_bit k (drop_bit 1 c)"
    by (rule Suc.IH [OF tk])
  finally show ?case by (simp add: drop_bit_drop_bit)
qed

lemma xor_low_byte: "c XOR take_bit 8 c = push_bit 8 (drop_bit 8 (c :: int))"
  by (rule bit_eqI) (auto simp: bit_simps)

text \<open>
  C5. CRC round-trip: for every byte sequence \<open>p\<close>, the CRC of \<open>p\<close> followed by the
  two-byte little-endian encoding of \<open>compute_crc p\<close> is 0.
\<close>

theorem compute_crc_roundtrip: "compute_crc (p @ crc_le p) = 0"
proof -
  define c where "c = fold crc_byte p 0xFFFF"
  have r: "crc_range c" unfolding c_def
    by (rule fold_crc_byte_range) (simp add: crc_range_def)
  have cc: "compute_crc p = c" by (simp add: compute_crc_fold c_def)
  define h where "h = drop_bit 8 c"
  from r have b: "0 \<le> c" "c < 65536" by (simp_all add: crc_range_def)
  have "0 \<le> c div 256" using b by linarith
  moreover have "c div 256 < 256" using b by linarith
  ultimately have hr: "0 \<le> h" "h < 2 ^ 8" by (simp_all add: h_def drop_bit_eq_div)
  have lo: "uint (word_of_int (c AND 0xFF) :: byte) = take_bit 8 c"
    by (simp add: uint_word_of_int_eq take_bit_eq_mask mask_eq_exp_minus_1)
  have hm: "h AND 0xFF = take_bit 8 h"
    by (simp add: take_bit_eq_mask mask_eq_exp_minus_1)
  have hs: "take_bit 8 h = h" using hr by (simp add: take_bit_int_eq_self)
  have hi: "uint (word_of_int (h AND 0xFF) :: byte) = h"
    unfolding hm hs by (simp add: uint_word_of_int_eq hs)
  have s1: "crc_byte (word_of_int (c AND 0xFF)) c = h"
  proof -
    have "take_bit 8 (push_bit 8 h) = 0" by (simp add: take_bit_push_bit)
    then have "(crc_bit ^^ 8) (push_bit 8 h) = drop_bit 8 (push_bit 8 h)" by (rule crc_bit_shift)
    also have "drop_bit 8 (push_bit 8 h) = h" by (simp add: drop_bit_push_bit)
    finally have "(crc_bit ^^ 8) (push_bit 8 h) = h" .
    moreover have "c XOR uint (word_of_int (c AND 0xFF) :: byte) = push_bit 8 h"
      unfolding lo h_def by (rule xor_low_byte)
    ultimately show ?thesis unfolding crc_byte_def by simp
  qed
  have s2: "crc_byte (word_of_int (h AND 0xFF)) h = 0"
  proof -
    have "take_bit 8 (0::int) = 0" by simp
    then have "(crc_bit ^^ 8) 0 = drop_bit 8 (0::int)" by (rule crc_bit_shift)
    then show ?thesis by (simp add: crc_byte_def hi)
  qed
  have "fold crc_byte (p @ crc_le p) 0xFFFF = 0"
    by (simp add: crc_le_def cc c_def [symmetric] s1 h_def [symmetric] s2)
  then show ?thesis by (simp add: compute_crc_fold)
qed

section \<open>The frame splitter\<close>

declare split_loop.simps [simp del]

lemma try_lengths_Some:
  "try_lengths data idx ls = Some l \<Longrightarrow> 4 \<le> l \<and> idx + l \<le> length data"
  by (induction ls) (auto simp: slice_def Let_def split: if_splits)

lemma split_loop_leftover_short: "length (snd (split_loop cand data idx frames)) \<le> 3"
proof (induction cand data idx frames rule: split_loop.induct)
  case (1 cand data idx frames)
  show ?case
  proof (cases "idx + 4 \<le> length data")
    case False
    then show ?thesis by (simp add: split_loop.simps [of cand data idx frames])
  next
    case True
    then show ?thesis
      using "1.IH"
      by (simp add: split_loop.simps [of cand data idx frames] Let_def split: option.split)
  qed
qed

text \<open>
  C10. For every input buffer, the leftover returned by \<open>split_modbus_frames\<close> is at
  most 3 bytes long: the scan only stops once fewer than 4 bytes remain.
\<close>

theorem split_leftover_at_most_3: "length (snd (split_modbus_frames B)) \<le> 3"
  unfolding split_modbus_frames_def by (rule split_loop_leftover_short)

lemma interleave_Cons_gap:
  "interleave ((x # g) # gs) fs = x # interleave (g # gs) fs"
  by (cases fs) simp_all

lemma split_loop_decompose:
  "idx \<le> length data \<Longrightarrow>
   \<exists>new gaps. fst (split_loop cand data idx frames) = frames @ new \<and> length gaps = Suc (length new) \<and>
      drop idx data = interleave gaps new @ snd (split_loop cand data idx frames)"
proof (induction cand data idx frames rule: split_loop.induct)
  case (1 cand data idx frames)
  let ?cands = "cand
        (if idx + 1 < length data then Some (uint (data ! (idx + 1))) else None)
        (min 256 (int (length data) - int idx))"
  show ?case
  proof (cases "idx + 4 \<le> length data")
    case False
    have "interleave [[]] [] = ([] :: bytes)" by simp
    with False show ?thesis
      by (simp add: split_loop.simps [of cand data idx frames])
         (metis interleave.simps(2) length_Cons list.size(3))
  next
    case True
    show ?thesis
    proof (cases "try_lengths data idx ?cands")
      case None
      then have eq: "split_loop cand data idx frames = split_loop cand data (idx + 1) frames"
        using True by (simp add: split_loop.simps [of cand data idx frames] Let_def)
      from True have le: "idx + 1 \<le> length data" by simp
      from "1.IH"(1) [OF True refl refl refl None le]
      obtain new gaps where n: "fst (split_loop cand data (idx + 1) frames) = frames @ new"
        and g: "length gaps = Suc (length new)"
        and d: "drop (idx + 1) data = interleave gaps new @ snd (split_loop cand data (idx + 1) frames)"
        by blast
      from g obtain g0 gs where gaps: "gaps = g0 # gs" by (cases gaps) auto
      have "drop idx data = data ! idx # drop (idx + 1) data"
        using True by (simp add: Cons_nth_drop_Suc)
      then have "drop idx data =
          interleave ((data ! idx # g0) # gs) new @ snd (split_loop cand data idx frames)"
        using d gaps eq by (simp add: interleave_Cons_gap)
      moreover have "length ((data ! idx # g0) # gs) = Suc (length new)" using g gaps by simp
      ultimately show ?thesis using n eq by metis
    next
      case (Some l)
      let ?frame = "slice data idx (idx + l)"
      from Some have eq: "split_loop cand data idx frames = split_loop cand data (idx + l) (frames @ [?frame])"
        using True by (simp add: split_loop.simps [of cand data idx frames] Let_def)
      from try_lengths_Some [OF Some] have le: "idx + l \<le> length data" by simp
      from "1.IH"(2) [OF True refl refl refl Some le]
      obtain new gaps
        where n: "fst (split_loop cand data (idx + l) (frames @ [?frame])) = (frames @ [?frame]) @ new"
        and g: "length gaps = Suc (length new)"
        and d: "drop (idx + l) data =
                interleave gaps new @ snd (split_loop cand data (idx + l) (frames @ [?frame]))"
        by blast
      have "drop idx data = ?frame @ drop (idx + l) data"
        by (simp add: slice_def add.commute [of idx l] flip: drop_drop)
      then have "drop idx data =
          interleave ([] # gaps) (?frame # new) @ snd (split_loop cand data idx frames)"
        using d eq by simp
      moreover have "length ([] # gaps) = Suc (length (?frame # new))" using g by simp
      moreover have "fst (split_loop cand data idx frames) = frames @ (?frame # new)"
        using n eq by simp
      ultimately show ?thesis by metis
    qed
  qed
qed

lemma subseq_interleave:
  "length gaps = Suc (length fs) \<Longrightarrow> subseq (concat fs) (interleave gaps fs)"
proof (induction gaps fs rule: interleave.induct)
  case (1 g gs f fs)
  then have "subseq (concat fs) (interleave gs fs)" by simp
  then have "subseq (f @ concat fs) (f @ interleave gs fs)"
    by (intro list_emb_append_mono) simp_all
  then have "subseq (f @ concat fs) (g @ f @ interleave gs fs)"
    by (rule list_emb_append2)
  then show ?case by simp
qed simp_all

text \<open>
  C4, as the specification states it: the emitted frames followed by the leftover are a
  suffix of the input. Two valid FC06 frames with one stray byte between them are both
  emitted, and the stray byte is dropped, so the concatenation is no suffix of the input.
\<close>

theorem split_suffix_counterexample:
  "\<not> suffix
       (concat (fst (split_modbus_frames
          [0x01, 0x06, 0x00, 0x05, 0x00, 0x64, 0x98, 0x20, 0xFF,
           0x01, 0x06, 0x00, 0x05, 0x00, 0x64, 0x98, 0x20]))
        @ snd (split_modbus_frames
          [0x01, 0x06, 0x00, 0x05, 0x00, 0x64, 0x98, 0x20, 0xFF,
           0x01, 0x06, 0x00, 0x05, 0x00, 0x64, 0x98, 0x20]))
       [0x01, 0x06, 0x00, 0x05, 0x00, 0x64, 0x98, 0x20, 0xFF,
        0x01, 0x06, 0x00, 0x05, 0x00, 0x64, 0x98, 0x20]"
  by code_simp

text \<open>
  C4, amended. \<open>split_modbus_frames\<close> is a total function (its loop terminates on every
  input, by the measure \<open>len(data) - idx\<close>). The input is laid out as the emitted frames
  in order, each preceded by a possibly empty run of skipped bytes, then one more such
  run, then the leftover. So the leftover is a suffix of the input, and the frames
  followed by the leftover are a subsequence of it.
\<close>

theorem split_frames_interleaved:
  "\<exists>frames leftover gaps.
      split_modbus_frames B = (frames, leftover) \<and>
      length gaps = Suc (length frames) \<and>
      B = interleave gaps frames @ leftover \<and>
      suffix leftover B \<and>
      subseq (concat frames @ leftover) B"
proof -
  obtain frames leftover where r: "split_modbus_frames B = (frames, leftover)"
    by (cases "split_modbus_frames B")
  from split_loop_decompose [of 0 B candidate_frame_lengths "[]"] r
  obtain gaps where g: "length gaps = Suc (length frames)"
    and d: "B = interleave gaps frames @ leftover"
    by (auto simp: split_modbus_frames_def)
  have "suffix leftover B" using d by (metis suffixI)
  moreover have "subseq (concat frames @ leftover) (interleave gaps frames @ leftover)"
    using subseq_interleave [OF g] by (intro list_emb_append_mono) simp_all
  ultimately show ?thesis using r g d by metis
qed

text \<open>Every emitted frame has four bytes or more and ends in its CRC.\<close>

lemma try_lengths_frame_ok:
  "try_lengths data idx ls = Some l \<Longrightarrow> frame_ok (slice data idx (idx + l))"
  by (induction ls) (auto simp: frame_ok_def Let_def split: if_splits)

lemma split_loop_frames_ok:
  "list_all frame_ok frames \<Longrightarrow> list_all frame_ok (fst (split_loop cand data idx frames))"
proof (induction cand data idx frames rule: split_loop.induct)
  case (1 cand data idx frames)
  show ?case
  proof (cases "idx + 4 \<le> length data")
    case False
    then show ?thesis using "1.prems" by (simp add: split_loop.simps [of cand data idx frames])
  next
    case True
    let ?cands = "cand
        (if idx + 1 < length data then Some (uint (data ! (idx + 1))) else None)
        (min 256 (int (length data) - int idx))"
    show ?thesis
    proof (cases "try_lengths data idx ?cands")
      case None
      then have "split_loop cand data idx frames = split_loop cand data (idx + 1) frames"
        using True by (simp add: split_loop.simps [of cand data idx frames] Let_def)
      with "1.IH"(1) [OF True refl refl refl None "1.prems"] show ?thesis by simp
    next
      case (Some l)
      let ?frame = "slice data idx (idx + l)"
      from Some have eq: "split_loop cand data idx frames = split_loop cand data (idx + l) (frames @ [?frame])"
        using True by (simp add: split_loop.simps [of cand data idx frames] Let_def)
      have "list_all frame_ok (frames @ [?frame])"
        using "1.prems" try_lengths_frame_ok [OF Some] by simp
      from "1.IH"(2) [OF True refl refl refl Some this] eq show ?thesis by simp
    qed
  qed
qed

lemma split_modbus_frames_ok: "list_all frame_ok (fst (split_modbus_frames B))"
  unfolding split_modbus_frames_def by (rule split_loop_frames_ok) simp

section \<open>The hub: FC03 responses\<close>

lemma dispatched_store_register:
  "dispatched (store_register clk h u r v) = dispatched h @ [(u, r, v)]"
  by (simp add: store_register_def Let_def)

lemma dispatched_fold_store:
  "dispatched (fold (\<lambda>(offset, val) h. store_register clk h u (start + int offset) val)
                 (enumerate n vals) h)
   = dispatched h @ map (\<lambda>(offset, val). (u, start + int offset, val)) (enumerate n vals)"
  by (induction vals arbitrary: n h) (simp_all add: dispatched_store_register)

lemma dispatched_store_all:
  "dispatched (store_all clk h u start vals)
   = dispatched h @ map (\<lambda>(offset, val). (u, start + int offset, val)) (enumerate 0 vals)"
  unfolding store_all_def by (rule dispatched_fold_store)

lemma length_chunk_values: "length (chunk_values bs) = length bs div 2"
  by (induction bs rule: chunk_values.induct) simp_all

lemma dispatched_purge [simp]: "dispatched (purge_old_requests h u now) = dispatched h"
  by (simp add: purge_old_requests_def)

lemma dispatched_pop [simp]: "dispatched (snd (pop_matching_request h u n now)) = dispatched h"
  by (simp add: pop_matching_request_def Let_def split: list.split prod.split)

lemma parse_fc03_response_Some:
  assumes "parse_fc03_response frame = Some (u, vals)"
  shows "5 \<le> length frame" and "uint (frame ! 1) AND 0x7F = 3" and "u = uint (frame ! 0)"
    and "vals = chunk_values (slice (payload_of frame) 1 (1 + nat (uint (payload_of frame ! 0))))"
  using assms by (auto simp: parse_fc03_response_def Let_def split: if_splits)

lemma handle_fc03_response:
  assumes req: "parse_fc03_request frame = None"
      and resp: "parse_fc03_response frame = Some (u, vals)"
  shows "handle_frame clk h frame =
     Inr (case pop_matching_request (h\<lparr>clock_reads := Suc (clock_reads h)\<rparr>) (uint (frame ! 0))
                 (int (length vals)) (clk (clock_reads h)) of
            (None, h') \<Rightarrow> store_all clk h' (uint (frame ! 0)) 0 vals
          | (Some start_addr, h') \<Rightarrow> store_all clk h' (uint (frame ! 0)) start_addr vals)"
  using parse_fc03_response_Some(1,2) [OF resp] req resp
  by (simp add: handle_frame_def Let_def)

text \<open>
  C6. A frame handled as an FC03 response (function code 3, not a request, and
  \<open>parse_fc03_response\<close> succeeds with the values \<open>vals\<close>) emits exactly one update per
  value, at consecutive registers from some base address, for the frame's unit; and
  \<open>vals\<close> are the complete big-endian two-byte values among the \<open>byte_count\<close> bytes that
  follow the count byte.
\<close>

theorem fc03_response_events:
  assumes req: "parse_fc03_request frame = None"
      and resp: "parse_fc03_response frame = Some (u, vals)"
  shows "\<exists>h' base. handle_frame clk h frame = Inr h' \<and>
           dispatched h' = dispatched h @
              map (\<lambda>(offset, val). (uint (frame ! 0), base + int offset, val)) (enumerate 0 vals) \<and>
           length (dispatched h') = length (dispatched h) + length vals \<and>
           vals = chunk_values (slice (payload_of frame) 1 (1 + nat (uint (payload_of frame ! 0)))) \<and>
           length vals = length (slice (payload_of frame) 1 (1 + nat (uint (payload_of frame ! 0)))) div 2"
proof -
  let ?h0 = "h\<lparr>clock_reads := Suc (clock_reads h)\<rparr>"
  obtain start h1 where p: "pop_matching_request ?h0 (uint (frame ! 0)) (int (length vals)) (clk (clock_reads h)) = (start, h1)"
    by (cases "pop_matching_request ?h0 (uint (frame ! 0)) (int (length vals)) (clk (clock_reads h))")
  have d1: "dispatched h1 = dispatched h"
    using dispatched_pop [of ?h0 "uint (frame ! 0)" "int (length vals)" "clk (clock_reads h)"] p by simp
  define base where "base = (case start of None \<Rightarrow> 0 | Some a \<Rightarrow> a)"
  have hf: "handle_frame clk h frame = Inr (store_all clk h1 (uint (frame ! 0)) base vals)"
    using handle_fc03_response [OF req resp, of clk h] p by (simp add: base_def split: option.split)
  have dv: "dispatched (store_all clk h1 (uint (frame ! 0)) base vals) = dispatched h @
              map (\<lambda>(offset, val). (uint (frame ! 0), base + int offset, val)) (enumerate 0 vals)"
    by (simp add: dispatched_store_all d1)
  have v: "vals = chunk_values (slice (payload_of frame) 1 (1 + nat (uint (payload_of frame ! 0))))"
    by (rule parse_fc03_response_Some(4) [OF resp])
  have l: "length vals = length (slice (payload_of frame) 1 (1 + nat (uint (payload_of frame ! 0)))) div 2"
    by (subst v) (rule length_chunk_values)
  show ?thesis
  proof (intro exI conjI)
    show "handle_frame clk h frame = Inr (store_all clk h1 (uint (frame ! 0)) base vals)"
      by (rule hf)
    show "dispatched (store_all clk h1 (uint (frame ! 0)) base vals) = dispatched h @
              map (\<lambda>(offset, val). (uint (frame ! 0), base + int offset, val)) (enumerate 0 vals)"
      by (rule dv)
    show "length (dispatched (store_all clk h1 (uint (frame ! 0)) base vals))
            = length (dispatched h) + length vals"
      by (simp add: dv)
    show "vals = chunk_values (slice (payload_of frame) 1 (1 + nat (uint (payload_of frame ! 0))))"
      by (rule v)
    show "length vals = length (slice (payload_of frame) 1 (1 + nat (uint (payload_of frame ! 0)))) div 2"
      by (rule l)
  qed
qed


theorem fc03_response_events_witness:
  "parse_fc03_request [0x01, 0x03, 0x04, 0x00, 0x0A, 0x00, 0x14, 0xDA, 0x3E] = None \<and>
   parse_fc03_response [0x01, 0x03, 0x04, 0x00, 0x0A, 0x00, 0x14, 0xDA, 0x3E] = Some (1, [10, 20]) \<and>
   (\<exists>h' base. handle_frame real init_hub [0x01, 0x03, 0x04, 0x00, 0x0A, 0x00, 0x14, 0xDA, 0x3E] = Inr h' \<and>
      dispatched h' = [(1, base, 10), (1, base + 1, 20)] \<and> length (dispatched h') = 2)"
proof -
  let ?f = "[0x01, 0x03, 0x04, 0x00, 0x0A, 0x00, 0x14, 0xDA, 0x3E] :: bytes"
  have a: "parse_fc03_request ?f = None" by code_simp
  have b: "parse_fc03_response ?f = Some (1, [10, 20])" by code_simp
  have d: "dispatched init_hub = []" by (simp add: init_hub_def)
  from fc03_response_events [where clk = real and h = init_hub, OF a b]
  obtain h' base where "handle_frame real init_hub ?f = Inr h'"
    and "dispatched h' = dispatched init_hub @
       map (\<lambda>(offset, val). (uint (?f ! 0), base + int offset, val)) (enumerate 0 [10, 20])"
    and "length (dispatched h') = length (dispatched init_hub) + length [10 :: int, 20]"
    by blast
  then have "handle_frame real init_hub ?f = Inr h' \<and>
      dispatched h' = [(1, base, 10), (1, base + 1, 20)] \<and> length (dispatched h') = 2"
    by (simp add: d)
  then show ?thesis using a b by blast
qed

text \<open>
  C7, amended. When the unit's queue of pending requests is empty once the stale
  entries are purged, an FC03 response is stored at consecutive registers from base
  address 0. The updates sent are plain \<open>(unit, register, value)\<close> triples: nothing
  on them records that no request was matched.
\<close>

theorem fc03_uncorrelated_base_zero:
  assumes req: "parse_fc03_request frame = None"
      and resp: "parse_fc03_response frame = Some (u, vals)"
      and empty: "purge_queue (clk (clock_reads h)) (pending_reads h (uint (frame ! 0))) = []"
  shows "\<exists>h'. handle_frame clk h frame = Inr h' \<and>
           dispatched h' = dispatched h @
              map (\<lambda>(offset, val). (uint (frame ! 0), int offset, val)) (enumerate 0 vals)"
proof -
  let ?h0 = "h\<lparr>clock_reads := Suc (clock_reads h)\<rparr>"
  let ?hp = "purge_old_requests ?h0 (uint (frame ! 0)) (clk (clock_reads h))"
  have "pop_matching_request ?h0 (uint (frame ! 0)) (int (length vals)) (clk (clock_reads h))
          = (None, ?hp)"
    using empty by (simp add: pop_matching_request_def purge_old_requests_def Let_def)
  then have "handle_frame clk h frame = Inr (store_all clk ?hp (uint (frame ! 0)) 0 vals)"
    using handle_fc03_response [OF req resp, of clk h] by simp
  moreover have "dispatched (store_all clk ?hp (uint (frame ! 0)) 0 vals) = dispatched h @
              map (\<lambda>(offset, val). (uint (frame ! 0), int offset, val)) (enumerate 0 vals)"
    by (simp add: dispatched_store_all)
  ultimately show ?thesis by blast
qed

theorem fc03_uncorrelated_base_zero_witness:
  "parse_fc03_request [0x02, 0x03, 0x02, 0x00, 0xFF, 0xBC, 0x04] = None \<and>
   parse_fc03_response [0x02, 0x03, 0x02, 0x00, 0xFF, 0xBC, 0x04] = Some (2, [255]) \<and>
   purge_queue (real (clock_reads init_hub)) (pending_reads init_hub 2) = [] \<and>
   (\<exists>h'. handle_frame real init_hub [0x02, 0x03, 0x02, 0x00, 0xFF, 0xBC, 0x04] = Inr h' \<and>
      dispatched h' = [(2, 0, 255)])"
proof -
  let ?f = "[0x02, 0x03, 0x02, 0x00, 0xFF, 0xBC, 0x04] :: bytes"
  have a: "parse_fc03_request ?f = None" by code_simp
  have b: "parse_fc03_response ?f = Some (2, [255])" by code_simp
  have u: "uint (?f ! 0) = 2" by simp
  have c: "purge_queue (real (clock_reads init_hub)) (pending_reads init_hub 2) = []"
    by (simp add: init_hub_def purge_queue_def)
  have c': "purge_queue (real (clock_reads init_hub)) (pending_reads init_hub (uint (?f ! 0))) = []"
    unfolding u by (rule c)
  have d: "dispatched init_hub = []" by (simp add: init_hub_def)
  from fc03_uncorrelated_base_zero [where clk = real and h = init_hub, OF a b c']
  obtain h' where "handle_frame real init_hub ?f = Inr h'"
    and "dispatched h' = dispatched init_hub @
       map (\<lambda>(offset, val). (uint (?f ! 0), int offset, val)) (enumerate 0 [255])"
    by blast
  then have "handle_frame real init_hub ?f = Inr h' \<and> dispatched h' = [(2, 0, 255)]"
    by (simp add: d)
  then show ?thesis using a b c by blast
qed

text \<open>
  C7, as the specification states it. The bytes \<open>02 03 02 00 FF F8 45\<close> do not end in
  the CRC of \<open>02 03 02 00 FF\<close>, which is \<open>BC 04\<close> on the wire: the hub finds no frame
  in them and sends no update. With the right CRC the update \<open>(2, 0, 255)\<close> is sent,
  and it is the same update that a response matched to a request for register 0 sends:
  the event carries no mark of the missed correlation.
\<close>

theorem correlation_flag_counterexample:
  "events_of (process_bytes real init_hub [0x02, 0x03, 0x02, 0x00, 0xFF, 0xF8, 0x45]) = Inr [] \<and>
   events_of (process_bytes real init_hub [0x02, 0x03, 0x02, 0x00, 0xFF, 0xBC, 0x04])
     = Inr [(2, 0, 255)] \<and>
   events_of (process_bytes real init_hub
        [0x02, 0x03, 0x00, 0x00, 0x00, 0x01, 0x84, 0x39,
         0x02, 0x03, 0x02, 0x00, 0xFF, 0xBC, 0x04])
     = Inr [(2, 0, 255)]"
  by code_simp
section \<open>The hub never raises\<close>

text \<open>
  \<open>_handle_frame\<close> reads \<open>frame[0]\<close> and \<open>frame[1]\<close>; the frames it is given come from
  the splitter and are long enough.
\<close>

lemma handle_frames_no_error:
  "list_all frame_ok frames \<Longrightarrow> \<exists>h'. handle_frames clk h frames = Inr h'"
proof (induction frames arbitrary: h)
  case Nil
  then show ?case by simp
next
  case (Cons frame frames)
  then have "\<not> length frame < 2" by (simp add: frame_ok_def)
  then obtain h1 where "handle_frame clk h frame = Inr h1"
    by (simp add: handle_frame_def Let_def)
  moreover from Cons obtain h' where "handle_frames clk h1 frames = Inr h'" by auto
  ultimately show ?case by simp
qed

lemma process_bytes_no_error: "\<exists>h'. process_bytes clk h data = Inr h'"
proof (cases "data = []")
  case True
  then show ?thesis by (simp add: process_bytes_def)
next
  case False
  then show ?thesis
    using handle_frames_no_error [OF split_modbus_frames_ok]
    by (simp add: process_bytes_def Let_def case_prod_beta)
qed

lemma fc03_without_values:
  assumes "2 \<le> length frame" and "uint (frame ! 1) AND 0x7F = 3"
      and "parse_fc03_request frame = None" and "parse_fc03_response frame = None"
  shows "handle_frame clk h frame = Inr (h\<lparr>clock_reads := Suc (clock_reads h)\<rparr>)"
  using assms by (simp add: handle_frame_def Let_def)

section \<open>The hub: pending requests\<close>

lemma purge_queue_fresh:
  "sorted (map arrival queue) \<Longrightarrow> p \<in> set (purge_queue now queue) \<Longrightarrow> now - arrival p \<le> 5"
proof (induction queue)
  case Nil
  then show ?case by (simp add: purge_queue_def)
next
  case (Cons q queue)
  show ?case
  proof (cases "now - arrival q > 5")
    case True
    then have "purge_queue now (q # queue) = purge_queue now queue"
      by (simp add: purge_queue_def)
    with Cons show ?thesis by simp
  next
    case False
    then have "purge_queue now (q # queue) = q # queue" by (simp add: purge_queue_def)
    with Cons.prems have "p = q \<or> (p \<in> set queue \<and> arrival q \<le> arrival p)" by auto
    with False show ?thesis by auto
  qed
qed

lemma purge_queue_head_fresh:
  "purge_queue now queue = p # rest \<Longrightarrow> now - arrival p \<le> 5"
proof -
  assume a: "purge_queue now queue = p # rest"
  then have "dropWhile (\<lambda>p. now - arrival p > 5) queue \<noteq> []" by (simp add: purge_queue_def)
  from hd_dropWhile [OF this] a show ?thesis by (simp add: purge_queue_def)
qed


text \<open>
  C8. Pending-request TTL. The queue of a unit holds its requests in order of arrival
  (each is appended with the clock reading of its frame). A request that arrived at
  \<open>t\<close> is no longer in the queue once it is purged at a time \<open>now \<ge> t + 5.001\<close>, which
  \<open>_pop_matching_request\<close> does before it matches: the entry it consumes, if any, is the
  head of the purged queue and arrived strictly after \<open>t\<close>.
\<close>

theorem pending_request_ttl:
  assumes sorted: "sorted (map arrival (pending_reads h unit))"
      and late: "t + 5.001 \<le> now"
  shows "(start, quantity, t) \<notin> set (pending_reads (purge_old_requests h unit now) unit) \<and>
         (case pop_matching_request h unit n now of
            (None, h') \<Rightarrow> purge_queue now (pending_reads h unit) = []
          | (Some a, h') \<Rightarrow>
              (\<exists>q t'. purge_queue now (pending_reads h unit) = (a, q, t') # pending_reads h' unit \<and>
                 t < t'))"
proof
  show "(start, quantity, t) \<notin> set (pending_reads (purge_old_requests h unit now) unit)"
  proof
    assume "(start, quantity, t) \<in> set (pending_reads (purge_old_requests h unit now) unit)"
    then have "(start, quantity, t) \<in> set (purge_queue now (pending_reads h unit))"
      by (simp add: purge_old_requests_def)
    from purge_queue_fresh [OF sorted this] have "now - t \<le> 5" by (simp add: arrival_def)
    with late show False by simp
  qed
next
  show "case pop_matching_request h unit n now of
            (None, h') \<Rightarrow> purge_queue now (pending_reads h unit) = []
          | (Some a, h') \<Rightarrow>
              (\<exists>q t'. purge_queue now (pending_reads h unit) = (a, q, t') # pending_reads h' unit \<and>
                 t < t')"
  proof (cases "purge_queue now (pending_reads h unit)")
    case Nil
    then show ?thesis
      by (simp add: pop_matching_request_def purge_old_requests_def Let_def)
  next
    case (Cons p rest)
    obtain a q t' where p: "p = (a, q, t')" by (cases p)
    from purge_queue_head_fresh [OF Cons] p have "now - t' \<le> 5" by (simp add: arrival_def)
    with late have "t < t'" by simp
    with Cons p show ?thesis
      by (simp add: pop_matching_request_def purge_old_requests_def Let_def)
  qed
qed


theorem pending_request_ttl_witness:
  "sorted (map arrival (pending_reads (init_hub\<lparr>pending_reads := (\<lambda>_. [(7, 1, 0), (9, 1, 2)])\<rparr>) 1)) \<and>
   (0 :: real) + 5.001 \<le> 5.001 \<and>
   (7, 1, 0) \<notin> set (pending_reads
       (purge_old_requests (init_hub\<lparr>pending_reads := (\<lambda>_. [(7, 1, 0), (9, 1, 2)])\<rparr>) 1 5.001) 1) \<and>
   fst (pop_matching_request (init_hub\<lparr>pending_reads := (\<lambda>_. [(7, 1, 0), (9, 1, 2)])\<rparr>) 1 1 5.001)
     = Some 9"
proof -
  let ?h = "init_hub\<lparr>pending_reads := (\<lambda>_. [(7, 1, 0), (9, 1, 2)])\<rparr>"
  have a: "sorted (map arrival (pending_reads ?h 1))" by (simp add: arrival_def)
  have b: "(0 :: real) + 5.001 \<le> 5.001" by simp
  have p: "purge_queue (5001 / 1000) [(7, 1, 0), (9, 1, 2)] = [(9, 1, 2)]"
    by (simp add: purge_queue_def arrival_def)
  have c: "fst (pop_matching_request ?h 1 1 5.001) = Some 9"
    by (simp add: pop_matching_request_def purge_old_requests_def p Let_def)
  from pending_request_ttl [where h = ?h and unit = 1 and t = 0 and now = "5.001", OF a b]
  have "(7, 1, 0) \<notin> set (pending_reads (purge_old_requests ?h 1 5.001) 1)" by blast
  with a b c show ?thesis by blast
qed

text \<open>
  The order of arrival that the theorem assumes holds in every state the hub reaches
  from its initial state, as long as the clock never runs backwards.
\<close>

lemma pending_ordered_init: "pending_ordered clk init_hub"
  by (simp add: pending_ordered_def init_hub_def)

lemma list_all_mono_clk:
  "mono clk \<Longrightarrow> n \<le> m \<Longrightarrow> list_all (\<lambda>p. arrival p \<le> clk n) q \<Longrightarrow>
   list_all (\<lambda>p. arrival p \<le> clk m) q"
proof -
  assume "mono clk" "n \<le> m"
  then have "clk n \<le> clk m" by (rule monoD)
  moreover assume "list_all (\<lambda>p. arrival p \<le> clk n) q"
  ultimately show ?thesis by (auto simp: list_all_iff)
qed

lemma pending_ordered_tick:
  "mono clk \<Longrightarrow> pending_ordered clk h \<Longrightarrow>
   pending_ordered clk (h\<lparr>clock_reads := Suc (clock_reads h)\<rparr>)"
  using list_all_mono_clk [of clk "clock_reads h" "Suc (clock_reads h)"]
  by (simp add: pending_ordered_def)

lemma sorted_purge_queue:
  "sorted (map arrival q) \<Longrightarrow> sorted (map arrival (purge_queue now q))"
  unfolding purge_queue_def
  by (induction q) auto

lemma list_all_purge_queue:
  "list_all P q \<Longrightarrow> list_all P (purge_queue now q)"
  unfolding purge_queue_def
  by (induction q) auto

lemma pending_ordered_purge:
  "pending_ordered clk h \<Longrightarrow> pending_ordered clk (purge_old_requests h unit now)"
  by (simp add: pending_ordered_def purge_old_requests_def sorted_purge_queue list_all_purge_queue)

lemma pending_ordered_pop:
  "pending_ordered clk h \<Longrightarrow> pending_ordered clk (snd (pop_matching_request h unit n now))"
proof -
  assume a: "pending_ordered clk h"
  let ?hp = "purge_old_requests h unit now"
  from a have p: "pending_ordered clk ?hp" by (rule pending_ordered_purge)
  show ?thesis
  proof (cases "pending_reads ?hp unit")
    case Nil
    then show ?thesis using p by (simp add: pop_matching_request_def Let_def)
  next
    case (Cons e rest)
    from p have "sorted (map arrival (pending_reads ?hp unit))"
      and "list_all (\<lambda>p. arrival p \<le> clk (clock_reads ?hp)) (pending_reads ?hp unit)"
      by (simp_all add: pending_ordered_def)
    with Cons have "sorted (map arrival rest)"
      and "list_all (\<lambda>p. arrival p \<le> clk (clock_reads ?hp)) rest"
      by simp_all
    then have "pending_ordered clk (?hp\<lparr>pending_reads := (pending_reads ?hp)(unit := rest)\<rparr>)"
      using p by (simp add: pending_ordered_def)
    with Cons show ?thesis
      by (simp add: pop_matching_request_def Let_def split: prod.split)
  qed
qed

lemma pending_ordered_store:
  "mono clk \<Longrightarrow> pending_ordered clk h \<Longrightarrow> pending_ordered clk (store_register clk h u r v)"
  using list_all_mono_clk [of clk "clock_reads h" "Suc (clock_reads h)"]
  by (simp add: pending_ordered_def store_register_def Let_def)

lemma pending_ordered_fold_store:
  "mono clk \<Longrightarrow> pending_ordered clk h \<Longrightarrow>
   pending_ordered clk
     (fold (\<lambda>(offset, val) h. store_register clk h u (start + int offset) val) (enumerate n vals) h)"
  by (induction vals arbitrary: n h) (simp_all add: pending_ordered_store)

lemma pending_ordered_store_all:
  "mono clk \<Longrightarrow> pending_ordered clk h \<Longrightarrow> pending_ordered clk (store_all clk h u start vals)"
  unfolding store_all_def by (rule pending_ordered_fold_store)

lemma pending_ordered_append:
  assumes m: "mono clk" and a: "pending_ordered clk h"
  shows "pending_ordered clk
     (h\<lparr>clock_reads := Suc (clock_reads h),
        pending_reads := (pending_reads h)
          (unit := pending_reads h unit @ [(start, quantity, clk (clock_reads h))])\<rparr>)"
proof -
  from m have le: "clk (clock_reads h) \<le> clk (Suc (clock_reads h))" by (simp add: monoD)
  from a have s: "sorted (map arrival (pending_reads h u))"
    and b: "list_all (\<lambda>p. arrival p \<le> clk (clock_reads h)) (pending_reads h u)" for u
    by (simp_all add: pending_ordered_def)
  have b': "list_all (\<lambda>p. arrival p \<le> clk (Suc (clock_reads h))) (pending_reads h u)" for u
    using b [of u] le by (auto simp: list_all_iff)
  have "sorted (map arrival (pending_reads h unit @ [(start, quantity, clk (clock_reads h))]))"
    using s [of unit] b [of unit] by (auto simp: sorted_append list_all_iff arrival_def)
  moreover have "list_all (\<lambda>p. arrival p \<le> clk (Suc (clock_reads h)))
      (pending_reads h unit @ [(start, quantity, clk (clock_reads h))])"
    using b' [of unit] le by (simp add: arrival_def)
  ultimately show ?thesis using s b' by (simp add: pending_ordered_def)
qed

lemma handle_frame_pending_ordered:
  assumes m: "mono clk" and a: "pending_ordered clk h" and r: "handle_frame clk h frame = Inr h'"
  shows "pending_ordered clk h'"
proof -
  let ?h0 = "h\<lparr>clock_reads := Suc (clock_reads h)\<rparr>"
  let ?u = "uint (frame ! 0)"
  let ?now = "clk (clock_reads h)"
  have t: "pending_ordered clk ?h0" by (rule pending_ordered_tick [OF m a])
  have req: "pending_ordered clk (purge_old_requests
      (?h0\<lparr>pending_reads := (pending_reads ?h0)
          (?u := pending_reads ?h0 ?u @ [(s, q, ?now)])\<rparr>) ?u ?now)" for s q
    using pending_ordered_append [OF m a, of ?u s q] by (simp add: pending_ordered_purge)
  have resp: "pending_ordered clk (store_all clk h1 ?u st vals)"
    if "pop_matching_request ?h0 ?u n ?now = (so, h1)" for n so h1 st vals
  proof -
    from pending_ordered_pop [OF t, of ?u n ?now] that have "pending_ordered clk h1" by simp
    then show ?thesis using m by (simp add: pending_ordered_store_all)
  qed
  from r show ?thesis
    using t req resp m
    by (auto simp: handle_frame_def Let_def pending_ordered_store pending_ordered_store_all
          split: if_splits option.splits prod.splits)
qed

lemma handle_frames_pending_ordered:
  "mono clk \<Longrightarrow> pending_ordered clk h \<Longrightarrow> handle_frames clk h frames = Inr h' \<Longrightarrow>
   pending_ordered clk h'"
proof (induction frames arbitrary: h)
  case Nil
  then show ?case by simp
next
  case (Cons frame frames)
  from Cons.prems(3) obtain h1 where f: "handle_frame clk h frame = Inr h1"
    and r: "handle_frames clk h1 frames = Inr h'"
    by (auto split: sum.splits)
  from handle_frame_pending_ordered [OF Cons.prems(1,2) f] have "pending_ordered clk h1" .
  from Cons.IH [OF Cons.prems(1) this r] show ?case .
qed

lemma process_bytes_pending_ordered:
  "mono clk \<Longrightarrow> pending_ordered clk h \<Longrightarrow> process_bytes clk h data = Inr h' \<Longrightarrow>
   pending_ordered clk h'"
proof -
  assume m: "mono clk" and a: "pending_ordered clk h" and r: "process_bytes clk h data = Inr h'"
  show ?thesis
  proof (cases "data = []")
    case True
    with r a show ?thesis by (simp add: process_bytes_def)
  next
    case False
    let ?sp = "split_modbus_frames (buffer h @ data)"
    have "pending_ordered clk (h\<lparr>buffer := snd ?sp\<rparr>)" using a by (simp add: pending_ordered_def)
    moreover have "handle_frames clk (h\<lparr>buffer := snd ?sp\<rparr>) (fst ?sp) = Inr h'"
      using r False by (simp add: process_bytes_def Let_def case_prod_beta)
    ultimately show ?thesis using m by (rule handle_frames_pending_ordered [rotated])
  qed
qed

section \<open>The hub: the register store\<close>

lemma untimed_update:
  "rv_unit_id s = rv_unit_id s' \<Longrightarrow> rv_register s = rv_register s' \<Longrightarrow> rv_value s = rv_value s' \<Longrightarrow>
   untimed (AList.update key s store) = untimed (AList.update key s' store)"
  by (induction store) (auto simp: untimed_def)

lemma get_register_untimed:
  "untimed (values_store h) = untimed (values_store h') \<Longrightarrow>
   get_register h unit_id register = get_register h' unit_id register"
proof -
  assume eq: "untimed (values_store h) = untimed (values_store h')"
  have m: "map_option rv_value (map_of store key)
        = map_option (\<lambda>(u, r, v). v) (map_of (untimed store) key)" for store key
    by (induction store) (auto simp: untimed_def)
  have f: "map_option (\<lambda>(key, sample). rv_value sample)
            (List.find (\<lambda>((uid, reg), sample). reg = register) store)
        = map_option (\<lambda>(key, u, r, v). v)
            (List.find (\<lambda>((uid, reg), x). reg = register) (untimed store))" for store
    by (induction store) (auto simp: untimed_def)
  have r: "untimed (rev store) = rev (untimed store)" for store
    by (simp add: untimed_def rev_map)
  show ?thesis
  proof (cases unit_id)
    case None
    then show ?thesis using eq by (simp add: get_register_def f r)
  next
    case (Some u)
    then show ?thesis using eq by (simp add: get_register_def m)
  qed
qed

text \<open>
  C9, amended. Writing \<open>(u, r, v)\<close> twice in succession leaves the same keys, in the
  same order, with the same unit, register and value as writing it once, and every
  \<open>get_register\<close> answers the same. The second write replaces the sample of \<open>(u, r)\<close>,
  in place, by one that carries the clock reading of the second write; the sample of
  every other key is the one the first write left, time stamp included. Two updates
  are sent.
\<close>

theorem store_register_twice:
  "untimed (values_store (store_register clk (store_register clk h u r v) u r v))
     = untimed (values_store (store_register clk h u r v)) \<and>
   values_store (store_register clk (store_register clk h u r v) u r v)
     = AList.update (u, r)
         \<lparr>rv_unit_id = u, rv_register = r, rv_value = v,
          rv_updated_at = clk (Suc (clock_reads h))\<rparr>
         (values_store (store_register clk h u r v)) \<and>
   map_of (values_store (store_register clk (store_register clk h u r v) u r v)) key
     = (if key = (u, r)
        then Some \<lparr>rv_unit_id = u, rv_register = r, rv_value = v,
                   rv_updated_at = clk (Suc (clock_reads h))\<rparr>
        else map_of (values_store (store_register clk h u r v)) key) \<and>
   get_register (store_register clk (store_register clk h u r v) u r v) unit_id reg
     = get_register (store_register clk h u r v) unit_id reg \<and>
   dispatched (store_register clk (store_register clk h u r v) u r v)
     = dispatched h @ [(u, r, v), (u, r, v)]"
proof -
  let ?h1 = "store_register clk h u r v"
  let ?h2 = "store_register clk ?h1 u r v"
  let ?s1 = "\<lparr>rv_unit_id = u, rv_register = r, rv_value = v,
              rv_updated_at = clk (clock_reads h)\<rparr>"
  let ?s2 = "\<lparr>rv_unit_id = u, rv_register = r, rv_value = v,
              rv_updated_at = clk (Suc (clock_reads h))\<rparr>"
  have v1: "values_store ?h1 = AList.update (u, r) ?s1 (values_store h)"
    by (simp add: store_register_def Let_def)
  have v2: "values_store ?h2 = AList.update (u, r) ?s2 (values_store h)"
    by (simp add: store_register_def Let_def)
  have u: "untimed (values_store ?h2) = untimed (values_store ?h1)"
    unfolding v1 v2 by (rule untimed_update) simp_all
  have e: "values_store ?h2 = AList.update (u, r) ?s2 (values_store ?h1)"
    unfolding v1 v2 by simp
  have m: "map_of (values_store ?h2) key
     = (if key = (u, r) then Some ?s2 else map_of (values_store ?h1) key)"
    unfolding v1 v2 by (simp add: update_conv')
  have g: "get_register ?h2 unit_id reg = get_register ?h1 unit_id reg"
    by (rule get_register_untimed [OF u])
  have d: "dispatched ?h2 = dispatched h @ [(u, r, v), (u, r, v)]"
    by (simp add: store_register_def Let_def)
  from u e m g d show ?thesis by blast
qed

text \<open>
  C9, as the specification states it: the store after the second write is the store
  after the first. Each write stamps the sample with a fresh reading of the clock, so
  with a clock that advances the two stores differ in \<open>updated_at\<close>.
\<close>

theorem store_register_twice_counterexample:
  "values_store (store_register real (store_register real init_hub 1 5 100) 1 5 100)
     \<noteq> values_store (store_register real init_hub 1 5 100)"
  by (simp add: store_register_def init_hub_def Let_def)

section \<open>Exception frames\<close>

lemma ws_candidate_exception:
  assumes "f AND 0x80 \<noteq> 0" and "5 \<le> max_len"
  shows "ws_candidate_frame_lengths (Some f) max_len = [5]"
proof -
  have "f \<noteq> 1" "f \<noteq> 2" "f \<noteq> 3" "f \<noteq> 4" "f \<noteq> 5" "f \<noteq> 6" "f \<noteq> 15" "f \<noteq> 16"
    using assms(1) by auto
  then show ?thesis using assms by (simp add: ws_candidate_frame_lengths_def)
qed

text \<open>
  C2. The exception frame \<open>01 83 02 C0 F1\<close> ends in the CRC of \<open>01 83 02\<close>, yet the
  splitter of \<open>parser.py\<close> offers no candidate length for it: the function byte \<open>0x83\<close>
  is masked to 3 before the dispatch, so the lengths are those of a read-registers frame
  and the branch for the exception bit is never reached. No frame is emitted and three
  bytes stay in the leftover. The copy in \<open>udp_web_server.py\<close> offers the length 5,
  emits the frame, and its decoder classifies the frame as an exception with code 2.
\<close>

theorem exception_frame_not_split:
  "compute_crc [0x01, 0x83, 0x02] = from_bytes_little [0xC0, 0xF1] \<and>
   candidate_frame_lengths (Some 0x83) 5 = [] \<and>
   split_modbus_frames [0x01, 0x83, 0x02, 0xC0, 0xF1] = ([], [0x02, 0xC0, 0xF1]) \<and>
   events_of (process_bytes real init_hub [0x01, 0x83, 0x02, 0xC0, 0xF1]) = Inr [] \<and>
   ws_candidate_frame_lengths (Some 0x83) 5 = [5] \<and>
   ws_split_modbus_frames [0x01, 0x83, 0x02, 0xC0, 0xF1]
     = ([[0x01, 0x83, 0x02, 0xC0, 0xF1]], []) \<and>
   decode_modbus_payload (Some 0x83) (payload_of [0x01, 0x83, 0x02, 0xC0, 0xF1])
     = \<lparr>payload_fields = [Field (Label ''Exception Code'') 2 1], frame_type = ''exception'',
        is_exception = True\<rparr>"
  by code_simp

section \<open>The hub: leftover bytes\<close>

text \<open>
  What \<open>_process_bytes\<close> gives the splitter, for a datagram as for a read of the
  stream: the buffer followed by the new bytes.
\<close>

lemma process_bytes_feeds_buffer:
  "process_bytes clk h data =
     (if data = [] then Inr h
      else handle_frames clk
             (h\<lparr>buffer := snd (split_modbus_frames (buffer h @ data))\<rparr>)
             (fst (split_modbus_frames (buffer h @ data))))"
  by (simp add: process_bytes_def Let_def case_prod_beta)

text \<open>
  Handling frames never touches the buffer, so after every non-empty input the buffer
  is the leftover of the splitter, three bytes at most.
\<close>

lemma buffer_store_register [simp]: "buffer (store_register clk h u r v) = buffer h"
  by (simp add: store_register_def Let_def)

lemma buffer_fold_store:
  "buffer (fold (\<lambda>(offset, val) h. store_register clk h u (start + int offset) val)
             (enumerate n vals) h) = buffer h"
  by (induction vals arbitrary: n h) simp_all

lemma buffer_store_all [simp]: "buffer (store_all clk h u start vals) = buffer h"
  unfolding store_all_def by (rule buffer_fold_store)

lemma buffer_purge [simp]: "buffer (purge_old_requests h u now) = buffer h"
  by (simp add: purge_old_requests_def)

lemma buffer_pop:
  "pop_matching_request h u n now = (so, h1) \<Longrightarrow> buffer h1 = buffer h"
  by (auto simp: pop_matching_request_def Let_def split: list.splits prod.splits)

lemma handle_frame_buffer:
  "handle_frame clk h frame = Inr h' \<Longrightarrow> buffer h' = buffer h"
  by (auto simp: handle_frame_def Let_def buffer_pop split: if_splits option.splits prod.splits)

lemma handle_frames_buffer:
  "handle_frames clk h frames = Inr h' \<Longrightarrow> buffer h' = buffer h"
proof (induction frames arbitrary: h)
  case Nil
  then show ?case by simp
next
  case (Cons frame frames)
  from Cons.prems obtain h1 where f: "handle_frame clk h frame = Inr h1"
    and r: "handle_frames clk h1 frames = Inr h'"
    by (auto split: sum.splits)
  from Cons.IH [OF r] handle_frame_buffer [OF f] show ?case by simp
qed

lemma process_bytes_buffer:
  "process_bytes clk h data = Inr h' \<Longrightarrow>
   buffer h' = (if data = [] then buffer h else snd (split_modbus_frames (buffer h @ data)))"
proof (cases "data = []")
  case True
  assume "process_bytes clk h data = Inr h'"
  with True show ?thesis by (simp add: process_bytes_def)
next
  case False
  let ?sp = "split_modbus_frames (buffer h @ data)"
  assume "process_bytes clk h data = Inr h'"
  with False have "handle_frames clk (h\<lparr>buffer := snd ?sp\<rparr>) (fst ?sp) = Inr h'"
    by (simp add: process_bytes_def Let_def case_prod_beta)
  from handle_frames_buffer [OF this] False show ?thesis by simp
qed

lemma process_bytes_buffer_short:
  "length (buffer h) \<le> 3 \<Longrightarrow> process_bytes clk h data = Inr h' \<Longrightarrow> length (buffer h') \<le> 3"
  using process_bytes_buffer [of clk h data h'] split_loop_leftover_short [of candidate_frame_lengths "buffer h @ data" 0 "[]"]
  by (simp add: split_modbus_frames_def split: if_splits)

text \<open>
  C1. Each datagram stands alone in \<open>udp_listener\<close> of \<open>udp_web_server.py\<close>, which gives
  the splitter the datagram and nothing else. The hub does not: \<open>handle_datagram\<close> goes
  through the buffer of \<open>_process_bytes\<close>, which is shared by all senders. A datagram of
  three bytes from one sender is kept as leftover; the next datagram, from another
  sender, holds no frame (neither splitter finds one in it), yet in the hub it completes
  an FC06 frame with the leftover and the update \<open>(1, 5, 100)\<close> is sent.
\<close>

theorem datagram_not_standalone:
  "events_of (datagrams_received real init_hub
      [([0x01, 0x06, 0x00], (''192.0.2.1'', 502)),
       ([0x05, 0x00, 0x64, 0x98, 0x20], (''192.0.2.2'', 502))]) = Inr [(1, 5, 100)] \<and>
   events_of (datagrams_received real init_hub
      [([0x05, 0x00, 0x64, 0x98, 0x20], (''192.0.2.2'', 502))]) = Inr [] \<and>
   split_modbus_frames [0x05, 0x00, 0x64, 0x98, 0x20] = ([], [0x64, 0x98, 0x20]) \<and>
   ws_split_modbus_frames [0x05, 0x00, 0x64, 0x98, 0x20] = ([], [0x64, 0x98, 0x20])"
  by code_simp

text \<open>
  A buffer shorter than four bytes is returned whole; a longer one never is.
\<close>

lemma split_short_buffer:
  "length B < 4 \<Longrightarrow> split_modbus_frames B = ([], B)"
  by (simp add: split_modbus_frames_def split_loop.simps [of candidate_frame_lengths B 0 "[]"])

lemma split_leftover_never_whole:
  "4 \<le> length B \<Longrightarrow> snd (split_modbus_frames B) \<noteq> B"
  using split_loop_leftover_short [of candidate_frame_lengths B 0 "[]"]
  by (auto simp: split_modbus_frames_def)

text \<open>
  C3. The response \<open>01 03 04 00 0A 00 14 DA 3E\<close> ends in its CRC and, read in one piece,
  gives the updates \<open>(1, 0, 10)\<close> and \<open>(1, 1, 20)\<close>. Cut after its seventh byte it is
  lost: the first read holds no frame, the scan moves on byte by byte and only the last
  three bytes \<open>0A 00 14\<close> are kept, so the second read completes nothing, neither with the
  CRC \<open>DA 3E\<close> nor with the bytes \<open>5A 3D\<close> of the scenario (which are not the CRC). Cut
  after its third byte, the same response is completed by the second read.
\<close>

theorem partial_frame_lost:
  "compute_crc [0x01, 0x03, 0x04, 0x00, 0x0A, 0x00, 0x14] = from_bytes_little [0xDA, 0x3E] \<and>
   events_of (tcp_reads real init_hub
      [[0x01, 0x03, 0x04, 0x00, 0x0A, 0x00, 0x14, 0xDA, 0x3E]]) = Inr [(1, 0, 10), (1, 1, 20)] \<and>
   split_modbus_frames [0x01, 0x03, 0x04, 0x00, 0x0A, 0x00, 0x14] = ([], [0x0A, 0x00, 0x14]) \<and>
   events_of (tcp_reads real init_hub
      [[0x01, 0x03, 0x04, 0x00, 0x0A, 0x00, 0x14], [0xDA, 0x3E]]) = Inr [] \<and>
   events_of (tcp_reads real init_hub
      [[0x01, 0x03, 0x04, 0x00, 0x0A, 0x00, 0x14], [0x5A, 0x3D]]) = Inr [] \<and>
   events_of (tcp_reads real init_hub
      [[0x01, 0x03, 0x04], [0x00, 0x0A, 0x00, 0x14, 0xDA, 0x3E]]) = Inr [(1, 0, 10), (1, 1, 20)]"
  by code_simp

end
